theory Spec2Isabelle
  imports Main "HOL-Library.Sublist"
begin

section \<open>Python string primitives\<close>

text \<open>
  Strings are lists of characters; a character stands for the code point of the same
  number (0 to 255).  \<open>isspace\<close> is CPython's \<open>Py_UNICODE_ISSPACE\<close> on that range; it is
  the predicate behind both \<open>str.strip()\<close> and the pattern \<open>\s\<close> of \<open>re\<close> on \<open>str\<close>.
\<close>

abbreviation NL :: char where "NL \<equiv> CHR 0x0A"
abbreviation DQ :: char where "DQ \<equiv> CHR 0x22"
abbreviation BSL :: char where "BSL \<equiv> CHR 0x5C"
abbreviation SP :: char where "SP \<equiv> CHR 0x20"

definition isspace :: "char \<Rightarrow> bool" where
  "isspace c \<longleftrightarrow>
     c \<in> set [CHR 0x09, CHR 0x0A, CHR 0x0B, CHR 0x0C, CHR 0x0D, CHR 0x1C, CHR 0x1D,
               CHR 0x1E, CHR 0x1F, CHR 0x20, CHR 0x85, CHR 0xA0]"

text \<open>\<open>s.strip()\<close> and \<open>s.strip(chars)\<close>.\<close>

definition py_strip :: "string \<Rightarrow> string" where
  "py_strip s = rev (dropWhile isspace (rev (dropWhile isspace s)))"

definition py_strip_chars :: "string \<Rightarrow> string \<Rightarrow> string" where
  "py_strip_chars cs s =
     rev (dropWhile (\<lambda>c. c \<in> set cs) (rev (dropWhile (\<lambda>c. c \<in> set cs) s)))"

text \<open>\<open>n * s\<close> for an integer \<open>n\<close>: the empty string when \<open>n\<close> is not positive.\<close>

definition py_mul_str :: "int \<Rightarrow> string \<Rightarrow> string" where
  "py_mul_str n s = concat (replicate (nat n) s)"

text \<open>\<open>sep.join(xs)\<close>.\<close>

fun py_join :: "string \<Rightarrow> string list \<Rightarrow> string" where
  "py_join sep [] = []"
| "py_join sep [x] = x"
| "py_join sep (x # y # ys) = x @ sep @ py_join sep (y # ys)"

text \<open>\<open>s.split(c)\<close> for a separator of one character: one more part than separators.\<close>

fun py_split :: "char \<Rightarrow> string \<Rightarrow> string list" where
  "py_split c [] = [[]]"
| "py_split c (x # xs) =
     (if x = c then [] # py_split c xs
      else (case py_split c xs of
              [] \<Rightarrow> [[x]]
            | l # ls \<Rightarrow> (x # l) # ls))"

text \<open>\<open>s.split(c, maxsplit=n)\<close>: at most \<open>n\<close> cuts, at the leftmost separators.\<close>

fun py_split_max :: "char \<Rightarrow> nat \<Rightarrow> string \<Rightarrow> string list" where
  "py_split_max c 0 s = [s]"
| "py_split_max c (Suc n) s =
     (if c \<in> set s
      then takeWhile (\<lambda>x. x \<noteq> c) s # py_split_max c n (tl (dropWhile (\<lambda>x. x \<noteq> c) s))
      else [s])"

section \<open>Errors and records\<close>

text \<open>The exceptions the two programs can raise, and \<open>sys.exit\<close>.\<close>

datatype error =
    KeyError string
  | UnboundLocalError string
  | ValueError
  | AttributeError

text \<open>A parsed package is a Python \<open>dict\<close> from strings to strings.\<close>

type_synonym package = "string \<rightharpoonup> string"

definition getitem :: "package \<Rightarrow> string \<Rightarrow> error + string" where
  "getitem d k = (case d k of None \<Rightarrow> Inl (KeyError k) | Some v \<Rightarrow> Inr v)"

text \<open>The module-level settings; \<open>main\<close> overwrites the first two from the command line.\<close>

record globals =
  STANZA_INDENT :: int
  STANZA_FIELD_WIDTH :: int
  STANZA_SPACER_WIDTH :: int

definition default_globals :: globals where
  "default_globals =
     \<lparr>STANZA_INDENT = 4, STANZA_FIELD_WIDTH = 38, STANZA_SPACER_WIDTH = 2\<rparr>"

section \<open>strip_string\<close>

definition strip_string :: "string \<Rightarrow> string" where
  "strip_string s = py_strip_chars [DQ] (py_strip s)"

section \<open>get_crate_line (the same in both files)\<close>

definition get_crate_line :: "globals \<Rightarrow> package \<Rightarrow> error + string" where
  "get_crate_line G package_dict =
     (let indent = py_mul_str (STANZA_INDENT G) [SP];
          spacer_width = STANZA_SPACER_WIDTH G
      in (case getitem package_dict ''name'' of Inl e \<Rightarrow> Inl e | Inr name \<Rightarrow>
         (case getitem package_dict ''version'' of Inl e \<Rightarrow> Inl e | Inr ver \<Rightarrow>
         (case getitem package_dict ''checksum'' of Inl e \<Rightarrow> Inl e | Inr cksum \<Rightarrow>
           (let name_len = int (length name);
                ver_len = int (length ver);
                gap_len = STANZA_FIELD_WIDTH G - (name_len + ver_len);
                (gap_len, spacer_width) =
                  (if gap_len \<le> 0 then (1, spacer_width - 1) else (gap_len, spacer_width))
            in Inr (indent @ name @ py_mul_str gap_len [SP] @ ver
                    @ py_mul_str spacer_width [SP] @ cksum))))))"

section \<open>The regular expressions of \<open>re\<close>\<close>

text \<open>
  Python's \<open>re\<close> is a backtracking matcher: a greedy repetition tries one more round before
  it tries to stop, an alternation tries its left branch first, and the first way through
  the whole pattern is the match.  \<open>ms r s\<close> lists, in that order of preference, every
  state in which \<open>r\<close> can end when started in \<open>s\<close>; the head of the list is what Python
  finds.  A state is: whether the position is at the start of a line (the start of the text
  or just after a newline), the text still to read, and the groups captured so far.
  \<open>Bol\<close> and \<open>Eol\<close> are \<open>^\<close> and \<open>$\<close> under \<open>re.MULTILINE\<close>, \<open>Dot\<close> is \<open>.\<close> (anything but a
  newline), \<open>Space\<close> is \<open>\s\<close>, \<open>Grp n\<close> is the \<open>n\<close>-th parenthesis.
\<close>

datatype re =
    Chr char
  | Str string
  | Dot
  | Space
  | Bol
  | Eol
  | Seq re re
  | Alt re re
  | Star re
  | Grp nat re

abbreviation Plus :: "re \<Rightarrow> re" where
  "Plus r \<equiv> Seq r (Star r)"

type_synonym groups = "nat \<rightharpoonup> string"
type_synonym mstate = "bool \<times> string \<times> groups"

fun rest_of :: "mstate \<Rightarrow> string" where
  "rest_of (b, rs, g) = rs"

function ms :: "re \<Rightarrow> mstate \<Rightarrow> mstate list" where
  "ms (Chr c) (b, rs, g) =
     (case rs of [] \<Rightarrow> [] | x # xs \<Rightarrow> if x = c then [(x = NL, xs, g)] else [])"
| "ms (Str w) (b, rs, g) =
     (if prefix w rs then [(if w = [] then b else last w = NL, drop (length w) rs, g)] else [])"
| "ms Dot (b, rs, g) =
     (case rs of [] \<Rightarrow> [] | x # xs \<Rightarrow> if x \<noteq> NL then [(False, xs, g)] else [])"
| "ms Space (b, rs, g) =
     (case rs of [] \<Rightarrow> [] | x # xs \<Rightarrow> if isspace x then [(x = NL, xs, g)] else [])"
| "ms Bol (b, rs, g) = (if b then [(b, rs, g)] else [])"
| "ms Eol (b, rs, g) = (if rs = [] \<or> hd rs = NL then [(b, rs, g)] else [])"
| "ms (Seq r1 r2) s = concat (map (ms r2) (ms r1 s))"
| "ms (Alt r1 r2) s = ms r1 s @ ms r2 s"
| "ms (Star r) s =
     concat (map (\<lambda>s'. if length (rest_of s') < length (rest_of s) then ms (Star r) s' else [])
                 (ms r s)) @ [s]"
| "ms (Grp n r) (b, rs, g) =
     map (\<lambda>(b', rs', g'). (b', rs', g'(n \<mapsto> take (length rs - length rs') rs)))
         (ms r (b, rs, g))"
  by pat_completeness auto
termination
  by (relation "measures [\<lambda>(r, s). size r, \<lambda>(r, s). length (rest_of s)]") auto

text \<open>\<open>pattern.match\<close> at a state: the first way through the pattern, if there is one.\<close>

definition re_match :: "re \<Rightarrow> mstate \<Rightarrow> mstate option" where
  "re_match r s = (case ms r s of [] \<Rightarrow> None | x # _ \<Rightarrow> Some x)"

text \<open>
  \<open>re.search\<close>: the first position, from the left, at which the pattern matches.  The
  result is the match's groups, \<open>None\<close> when there is no match.
\<close>

fun search_from :: "re \<Rightarrow> bool \<Rightarrow> string \<Rightarrow> mstate option" where
  "search_from r b [] = re_match r (b, [], Map.empty)"
| "search_from r b (c # cs) =
     (case re_match r (b, c # cs, Map.empty) of
        None \<Rightarrow> search_from r (c = NL) cs
      | Some x \<Rightarrow> Some x)"

definition re_search :: "re \<Rightarrow> string \<Rightarrow> groups option" where
  "re_search r text = map_option (\<lambda>(b, rs, g). g) (search_from r True text)"

text \<open>
  \<open>re.finditer\<close>: the matches from left to right, each search starting where the last
  match ended.  None of the patterns below matches the empty string; after an empty match
  the model moves on by one character.
\<close>

function finditer_from :: "re \<Rightarrow> bool \<Rightarrow> string \<Rightarrow> groups list" where
  "finditer_from r b rs =
     (case re_match r (b, rs, Map.empty) of
        None \<Rightarrow> (case rs of [] \<Rightarrow> [] | c # cs \<Rightarrow> finditer_from r (c = NL) cs)
      | Some (b', rs', g) \<Rightarrow>
          if length rs' < length rs then g # finditer_from r b' rs'
          else (case rs of [] \<Rightarrow> [g] | c # cs \<Rightarrow> g # finditer_from r (c = NL) cs))"
  by pat_completeness auto
termination
  by (relation "measure (\<lambda>(r, b, rs). length rs)") auto

definition re_finditer :: "re \<Rightarrow> string \<Rightarrow> groups list" where
  "re_finditer r text = finditer_from r True text"

text \<open>
  \<open>re.split\<close> for a pattern without groups that does not match the empty string: the
  pieces between the matches, \<open>cur\<close> being the piece read so far.
\<close>

function split_from :: "re \<Rightarrow> bool \<Rightarrow> string \<Rightarrow> string \<Rightarrow> string list" where
  "split_from r b rs cur =
     (case re_match r (b, rs, Map.empty) of
        None \<Rightarrow> (case rs of [] \<Rightarrow> [cur] | c # cs \<Rightarrow> split_from r (c = NL) cs (cur @ [c]))
      | Some (b', rs', g) \<Rightarrow>
          if length rs' < length rs then cur # split_from r b' rs' []
          else (case rs of [] \<Rightarrow> [cur] | c # cs \<Rightarrow> split_from r (c = NL) cs (cur @ [c])))"
  by pat_completeness auto
termination
  by (relation "measure (\<lambda>(r, b, rs, cur). length rs)") auto

definition re_split :: "re \<Rightarrow> string \<Rightarrow> string list" where
  "re_split r s = split_from r True s []"

text \<open>The recursive equations are unfolded by hand, one step at a time.\<close>

declare ms.simps(9) [simp del]
declare finditer_from.simps [simp del]
declare split_from.simps [simp del]

section \<open>cargo2ports.py\<close>

subsection \<open>parse_package_block\<close>

text \<open>The loop over the lines of a block; unpacking \<open>k, v\<close> needs exactly two parts.\<close>

fun parse_lines :: "string list \<Rightarrow> package \<Rightarrow> error + package" where
  "parse_lines [] parsed = Inr parsed"
| "parse_lines (line # lines) parsed =
     (if CHR ''='' \<in> set line
      then (case map strip_string (py_split_max CHR ''='' 1 line) of
              [k, v] \<Rightarrow> parse_lines lines (parsed(k \<mapsto> v))
            | _ \<Rightarrow> Inl ValueError)
      else parse_lines lines parsed)"

definition parse_package_block :: "string \<Rightarrow> error + package" where
  "parse_package_block text = parse_lines (py_split NL text) Map.empty"

subsection \<open>get_packages\<close>

text \<open>\<^verbatim>\<open>\[\[package\]\]\s*((.+\n)+)(^\s*\n|$)\<close>\<close>

definition block_re :: re where
  "block_re =
     Seq (Str ''[[package]]'')
    (Seq (Star Space)
    (Seq (Grp 1 (Plus (Grp 2 (Seq (Plus Dot) (Chr NL)))))
         (Grp 3 (Alt (Seq Bol (Seq (Star Space) (Chr NL))) Eol))))"

text \<open>
  The loop over the matches.  \<open>match.groups()[0]\<close> is \<open>None\<close> for a group that took no
  part in the match, and \<open>None\<close> has no \<open>split\<close>.
\<close>

fun get_packages_loop :: "groups list \<Rightarrow> package list \<Rightarrow> error + package list" where
  "get_packages_loop [] packages = Inr packages"
| "get_packages_loop (m # matches) packages =
     (case m 1 of
        None \<Rightarrow> Inl AttributeError
      | Some block \<Rightarrow>
          (case parse_package_block block of
             Inl e \<Rightarrow> Inl e
           | Inr package \<Rightarrow> get_packages_loop matches (packages @ [package])))"

definition get_packages :: "string \<Rightarrow> error + package list" where
  "get_packages text = get_packages_loop (re_finditer block_re text) []"

subsection \<open>get_packages_from_metadata\<close>

text \<open>\<^verbatim>\<open>^\[metadata\]\s*(^((\"checksum\s*.*)|\s*\n)+)\<close>\<close>

definition metadata_re :: re where
  "metadata_re =
     Seq Bol
    (Seq (Str ''[metadata]'')
    (Seq (Star Space)
         (Grp 1 (Seq Bol
                (Plus (Grp 2 (Alt (Grp 3 (Seq (Str (DQ # ''checksum''))
                                         (Seq (Star Space) (Star Dot))))
                                  (Seq (Star Space) (Chr NL)))))))))"

text \<open>\<^verbatim>\<open>\s+\<close>\<close>

definition spaces_re :: re where
  "spaces_re = Plus Space"

text \<open>The loop over the lines of the section; \<open>tokens[5]\<close> exists when there are six.\<close>

fun metadata_loop :: "string list \<Rightarrow> package list \<Rightarrow> package list" where
  "metadata_loop [] packages = packages"
| "metadata_loop (line # lines) packages =
     (let tokens = re_split spaces_re line
      in if length tokens \<ge> 6
         then (let tokens = map strip_string tokens;
                   package = [''name'' \<mapsto> tokens ! 1, ''version'' \<mapsto> tokens ! 2,
                              ''checksum'' \<mapsto> tokens ! 5]
               in metadata_loop lines (packages @ [package]))
         else metadata_loop lines packages)"

definition get_packages_from_metadata :: "string \<Rightarrow> error + package list" where
  "get_packages_from_metadata text =
     (case re_search metadata_re text of
        None \<Rightarrow> Inr []
      | Some m \<Rightarrow>
          (case m 1 of
             None \<Rightarrow> Inl AttributeError
           | Some section \<Rightarrow> Inr (metadata_loop (py_split NL section) [])))"

subsection \<open>generate_crates_stanza\<close>

text \<open>
  The loop of \<open>generate_crates_stanza\<close>: \<open>count\<close> is the index \<open>enumerate\<close> gives, in the
  whole list, \<open>num_blocks\<close> the length of the whole list, \<open>output\<close> the lines so far.
\<close>

fun stanza_loop ::
  "globals \<Rightarrow> nat \<Rightarrow> nat \<Rightarrow> package list \<Rightarrow> string list \<Rightarrow> error + string list" where
  "stanza_loop G num_blocks count [] output = Inr output"
| "stanza_loop G num_blocks count (pkg # pkgs) output =
     (if pkg ''checksum'' = None then stanza_loop G num_blocks (Suc count) pkgs output
      else (case get_crate_line G pkg of
              Inl e \<Rightarrow> Inl e
            | Inr line \<Rightarrow>
                (let ending = (if int count = int num_blocks - 1 then [] else [SP, BSL])
                 in stanza_loop G num_blocks (Suc count) pkgs (output @ [line @ ending]))))"

definition stanza_output :: "globals \<Rightarrow> package list \<Rightarrow> error + string list" where
  "stanza_output G pkg_dicts =
     stanza_loop G (length pkg_dicts) 0 pkg_dicts [''cargo.crates '' @ [BSL]]"

definition generate_crates_stanza :: "globals \<Rightarrow> package list \<Rightarrow> error + string" where
  "generate_crates_stanza G pkg_dicts =
     (case stanza_output G pkg_dicts of
        Inl e \<Rightarrow> Inl e
      | Inr output \<Rightarrow> Inr (py_join [NL] output))"

subsection \<open>is_v1_lockfile\<close>

text \<open>\<^verbatim>\<open>^\[metadata\]\<close>\<close>

definition is_v1_lockfile :: "string \<Rightarrow> bool" where
  "is_v1_lockfile text \<longleftrightarrow> re_search (Seq Bol (Str ''[metadata]'')) text \<noteq> None"

subsection \<open>main\<close>

text \<open>
  What a run of the program leaves behind: \<open>Printed out\<close> when \<open>main\<close> returns, having
  written \<open>out\<close> to standard output (exit status 0); \<open>Fatal msg\<close> when \<open>fatal\<close> wrote \<open>msg\<close>
  to standard error and called \<open>sys.exit(1)\<close>; \<open>Uncaught e\<close> when the exception \<open>e\<close> left
  \<open>main\<close> (the interpreter prints a traceback to standard error and exits with status 1).
\<close>

datatype outcome = Printed string | Fatal string | Uncaught error

fun exit_status :: "outcome \<Rightarrow> int" where
  "exit_status (Printed out) = 0"
| "exit_status (Fatal msg) = 1"
| "exit_status (Uncaught e) = 1"

fun stdout_of :: "outcome \<Rightarrow> string" where
  "stdout_of (Printed out) = out"
| "stdout_of (Fatal msg) = []"
| "stdout_of (Uncaught e) = []"

definition no_packages_msg :: string where
  "no_packages_msg =
     ''No package definitions found: either not a Cargo.lock ''
     @ ''file, or file is empty.''"

definition fatal :: "string \<Rightarrow> outcome" where
  "fatal msg = Fatal (msg @ [NL])"

text \<open>The record sequence \<open>main\<close> of \<open>cargo2ports.py\<close> works on.\<close>

definition select_packages :: "string \<Rightarrow> error + package list" where
  "select_packages contents =
     (if is_v1_lockfile contents then get_packages_from_metadata contents
      else get_packages contents)"

text \<open>\<open>main\<close>, from the parsed arguments \<open>--indent\<close> and \<open>--width\<close> and the file's contents.\<close>

definition main :: "int \<Rightarrow> int \<Rightarrow> string \<Rightarrow> outcome" where
  "main indent width contents =
     (let G = default_globals\<lparr>STANZA_INDENT := indent, STANZA_FIELD_WIDTH := width\<rparr>
      in case select_packages contents of
           Inl e \<Rightarrow> Uncaught e
         | Inr packages \<Rightarrow>
             (case packages of
                [] \<Rightarrow> fatal no_packages_msg
              | _ # _ \<Rightarrow>
                  (case generate_crates_stanza G packages of
                     Inl e \<Rightarrow> Uncaught e
                   | Inr output \<Rightarrow> Printed (output @ [NL]))))"

section \<open>cargoV2forports.py\<close>

text \<open>\<open>strip_string\<close> and \<open>get_crate_line\<close> are the same as in \<open>cargo2ports.py\<close>.\<close>

subsection \<open>get_package_blocks\<close>

text \<open>\<^verbatim>\<open>(\[\[package\]\]\s*((.+\n)+))(^\s*\n|$)\<close>\<close>

definition block_re_v2 :: re where
  "block_re_v2 =
     Seq (Grp 1 (Seq (Str ''[[package]]'')
                (Seq (Star Space)
                     (Grp 2 (Plus (Grp 3 (Seq (Plus Dot) (Chr NL))))))))
         (Grp 4 (Alt (Seq Bol (Seq (Star Space) (Chr NL))) Eol))"

text \<open>A block is \<open>match.groups()[1]\<close>, which Python leaves \<open>None\<close> for an unset group.\<close>

definition get_package_blocks :: "string \<Rightarrow> string option list" where
  "get_package_blocks text = map (\<lambda>m. m 2) (re_finditer block_re_v2 text)"

subsection \<open>parse_package_block\<close>

text \<open>
  Here the assignment to \<open>parsed\<close> is outside the \<open>if\<close>: it runs for every line, with the
  \<open>k\<close> and \<open>v\<close> of the last line that had an \<open>=\<close>, and \<open>kv\<close> is \<open>None\<close> while the two
  variables are unbound.  The right-hand side \<open>strip_string(v)\<close> is evaluated first.
\<close>

fun parse_lines_v2 ::
  "string list \<Rightarrow> (string \<times> string) option \<Rightarrow> package \<Rightarrow> error + package" where
  "parse_lines_v2 [] kv parsed = Inr parsed"
| "parse_lines_v2 (line # lines) kv parsed =
     (case (if CHR ''='' \<in> set line
            then (case py_split_max CHR ''='' 1 line of
                    [k, v] \<Rightarrow> Inr (Some (k, v))
                  | _ \<Rightarrow> Inl ValueError)
            else Inr kv) of
        Inl e \<Rightarrow> Inl e
      | Inr None \<Rightarrow> Inl (UnboundLocalError ''v'')
      | Inr (Some (k, v)) \<Rightarrow>
          parse_lines_v2 lines (Some (k, v)) (parsed(strip_string k \<mapsto> strip_string v)))"

definition parse_package_block_v2 :: "string option \<Rightarrow> error + package" where
  "parse_package_block_v2 text =
     (case text of
        None \<Rightarrow> Inl AttributeError
      | Some t \<Rightarrow> parse_lines_v2 (py_split NL t) None Map.empty)"

subsection \<open>generate_crates_stanza\<close>

fun stanza_loop_v2 ::
  "globals \<Rightarrow> nat \<Rightarrow> nat \<Rightarrow> string option list \<Rightarrow> string list \<Rightarrow> error + string list" where
  "stanza_loop_v2 G num_blocks count [] output = Inr output"
| "stanza_loop_v2 G num_blocks count (b # bs) output =
     (case parse_package_block_v2 b of
        Inl e \<Rightarrow> Inl e
      | Inr block \<Rightarrow>
          if block ''checksum'' = None then stanza_loop_v2 G num_blocks (Suc count) bs output
          else (case get_crate_line G block of
                  Inl e \<Rightarrow> Inl e
                | Inr line \<Rightarrow>
                    (let ending = (if int count = int num_blocks - 1 then [] else [SP, BSL])
                     in stanza_loop_v2 G num_blocks (Suc count) bs
                          (output @ [line @ ending]))))"

definition stanza_output_v2 :: "globals \<Rightarrow> string option list \<Rightarrow> error + string list" where
  "stanza_output_v2 G blocks_dict_list =
     stanza_loop_v2 G (length blocks_dict_list) 0 blocks_dict_list [''cargo.crates '' @ [BSL]]"

definition generate_crates_stanza_v2 ::
  "globals \<Rightarrow> string option list \<Rightarrow> error + string" where
  "generate_crates_stanza_v2 G blocks_dict_list =
     (case stanza_output_v2 G blocks_dict_list of
        Inl e \<Rightarrow> Inl e
      | Inr output \<Rightarrow> Inr (py_join [NL] output))"

subsection \<open>main\<close>

definition main_v2 :: "int \<Rightarrow> string \<Rightarrow> outcome" where
  "main_v2 indent contents =
     (let G = default_globals\<lparr>STANZA_INDENT := indent\<rparr>;
          blocks = get_package_blocks contents
      in case blocks of
           [] \<Rightarrow> fatal no_packages_msg
         | _ # _ \<Rightarrow>
             (case generate_crates_stanza_v2 G blocks of
                Inl e \<Rightarrow> Uncaught e
              | Inr output \<Rightarrow> Printed (output @ [NL])))"

section \<open>Well-formed current-format lockfiles\<close>

text \<open>
  The text of a current-format lockfile: a preamble without any bracket, then the
  \<open>[[package]]\<close> tables, each a header line followed by its lines, separated by one blank
  line, the text ending with the last line of the last table.  A line of a table is not
  empty and holds no newline; the first line of a table is a key/value line that starts
  at the margin.
\<close>

definition unlines :: "string list \<Rightarrow> string" where
  "unlines ls = concat (map (\<lambda>l. l @ [NL]) ls)"

definition block_text :: "string list \<Rightarrow> string" where
  "block_text ls = ''[[package]]'' @ [NL] @ unlines ls"

definition lock_text :: "string \<Rightarrow> string list list \<Rightarrow> string" where
  "lock_text pre bs = pre @ py_join [NL] (map block_text bs)"

definition wf_line :: "string \<Rightarrow> bool" where
  "wf_line l \<longleftrightarrow> l \<noteq> [] \<and> NL \<notin> set l"

definition wf_block :: "string list \<Rightarrow> bool" where
  "wf_block ls \<longleftrightarrow>
     ls \<noteq> [] \<and> list_all wf_line ls \<and> \<not> isspace (hd (hd ls)) \<and> CHR ''='' \<in> set (hd ls)"

text \<open>A lockfile of two tables, the second without a checksum.\<close>

definition sample_blocks :: "string list list" where
  "sample_blocks =
     [[''name = '' @ [DQ] @ ''a'' @ [DQ], ''version = '' @ [DQ] @ ''1'' @ [DQ],
       ''checksum = '' @ [DQ] @ ''c'' @ [DQ]],
      [''name = '' @ [DQ] @ ''b'' @ [DQ], ''version = '' @ [DQ] @ ''2'' @ [DQ]]]"

definition sample_preamble :: string where
  "sample_preamble = ''version = 3'' @ [NL, NL]"

section \<open>Properties of the string primitives\<close>

lemma py_mul_str_single: "py_mul_str n [c] = replicate (nat n) c"
  by (induction "nat n" arbitrary: n)
     (simp_all add: py_mul_str_def replicate_append_same flip: replicate_Suc)

lemma isspace_DQ [simp]: "\<not> isspace DQ"
  by (simp add: isspace_def)

lemma unlines_Cons: "unlines (l # ls) = l @ NL # unlines ls"
  by (simp add: unlines_def)

lemma unlines_Nil: "unlines [] = []"
  by (simp add: unlines_def)

lemma py_strip_wrapped:
  assumes "\<forall>c\<in>set ws1. isspace c" and "\<forall>c\<in>set ws2. isspace c"
  shows "py_strip (ws1 @ [DQ] @ s @ [DQ] @ ws2) = [DQ] @ s @ [DQ]"
proof -
  have "dropWhile isspace (ws1 @ [DQ] @ s @ [DQ] @ ws2) = [DQ] @ s @ [DQ] @ ws2"
    using assms(1) by (simp add: dropWhile_append2)
  moreover have "dropWhile isspace (rev ([DQ] @ s @ [DQ] @ ws2)) = DQ # rev s @ [DQ]"
  proof -
    have "dropWhile isspace (rev ws2 @ DQ # rev s @ [DQ]) = dropWhile isspace (DQ # rev s @ [DQ])"
      by (rule dropWhile_append2) (use assms(2) in simp)
    then show ?thesis by simp
  qed
  ultimately show ?thesis
    by (simp add: py_strip_def)
qed

lemma py_strip_chars_quoted:
  assumes "s \<noteq> [] \<longrightarrow> hd s \<noteq> DQ \<and> last s \<noteq> DQ"
  shows "py_strip_chars [DQ] ([DQ] @ s @ [DQ]) = s"
proof (cases s)
  case Nil
  then show ?thesis by (simp add: py_strip_chars_def)
next
  case (Cons x xs)
  with assms have x: "x \<noteq> DQ" and l: "last (x # xs) \<noteq> DQ" by auto
  have "dropWhile (\<lambda>c. c \<in> set [DQ]) ([DQ] @ s @ [DQ]) = s @ [DQ]"
    using Cons x by simp
  moreover have "dropWhile (\<lambda>c. c \<in> set [DQ]) (rev (s @ [DQ])) = rev s"
  proof -
    have "rev s = last (x # xs) # rev (butlast (x # xs))"
      using Cons by (metis append_butlast_last_id list.distinct(1) rev.simps(2) rev_append rev_rev_ident rev_singleton_conv append_Cons append_Nil)
    with l show ?thesis by simp
  qed
  ultimately show ?thesis
    by (simp add: py_strip_chars_def)
qed

section \<open>Field trimming\<close>

text \<open>
  Claim C9, as amended.  \<open>strip_string\<close> removes the surrounding whitespace and then every
  double quote at either end, so a value wrapped in whitespace and one layer of quotes
  comes back unchanged, interior whitespace included, provided the value itself neither
  begins nor ends with a double quote.
\<close>

theorem strip_string_unwrap:
  assumes "\<forall>c\<in>set ws1. isspace c" and "\<forall>c\<in>set ws2. isspace c"
    and "s \<noteq> [] \<longrightarrow> hd s \<noteq> DQ \<and> last s \<noteq> DQ"
  shows "strip_string (ws1 @ [DQ] @ s @ [DQ] @ ws2) = s"
  unfolding strip_string_def
  using py_strip_wrapped [OF assms(1,2)] py_strip_chars_quoted [OF assms(3)] by simp

text \<open>The same at a value with interior whitespace.\<close>

theorem strip_string_unwrap_witness:
  "strip_string ([SP, CHR 0x09] @ [DQ] @ '' a b '' @ [DQ] @ [SP, NL]) = '' a b ''"
  using strip_string_unwrap [of "[SP, CHR 0x09]" "[SP, NL]" "'' a b ''"]
  by (simp add: isspace_def)

text \<open>
  Claim C9 as stated fails for a value that is itself a double quote: wrapped in one more
  layer of quotes and a space on each side, it is stripped to the empty string.
\<close>

theorem strip_string_quote_counterexample:
  "strip_string ([SP] @ [DQ] @ [DQ] @ [DQ] @ [SP]) \<noteq> [DQ]"
  by (simp add: strip_string_def py_strip_def py_strip_chars_def isspace_def)

section \<open>The layout of a line\<close>

lemma getitem_Some: "d k = Some v \<Longrightarrow> getitem d k = Inr v"
  by (simp add: getitem_def)

lemma getitem_None: "d k = None \<Longrightarrow> getitem d k = Inl (KeyError k)"
  by (simp add: getitem_def)

text \<open>
  Claim C2.  For a record with name, version and checksum, the line is the indentation,
  the name, \<open>gap\<close> spaces where \<open>gap\<close> is the field width minus the lengths of name and
  version when that is positive, the version, the spacer and the checksum; when \<open>gap\<close> is
  not positive the gap is one space and the spacer is one shorter.
\<close>

theorem get_crate_line_layout:
  assumes "pkg ''name'' = Some name" and "pkg ''version'' = Some ver"
    and "pkg ''checksum'' = Some cksum"
  shows "(0 < STANZA_FIELD_WIDTH G - (int (length name) + int (length ver)) \<longrightarrow>
            get_crate_line G pkg =
              Inr (replicate (nat (STANZA_INDENT G)) SP @ name
                   @ replicate (nat (STANZA_FIELD_WIDTH G - (int (length name) + int (length ver)))) SP
                   @ ver @ replicate (nat (STANZA_SPACER_WIDTH G)) SP @ cksum))
       \<and> (STANZA_FIELD_WIDTH G - (int (length name) + int (length ver)) \<le> 0 \<longrightarrow>
            get_crate_line G pkg =
              Inr (replicate (nat (STANZA_INDENT G)) SP @ name @ [SP]
                   @ ver @ replicate (nat (STANZA_SPACER_WIDTH G - 1)) SP @ cksum))"
  using assms
  by (simp add: get_crate_line_def getitem_Some py_mul_str_single Let_def)

text \<open>Both cases at the record of the first example, with the field width 38 and 5.\<close>

theorem get_crate_line_layout_witness:
  "get_crate_line default_globals
     [''name'' \<mapsto> ''foo'', ''version'' \<mapsto> ''1.0'', ''checksum'' \<mapsto> ''abc123'']
     = Inr (''    foo                                1.0  abc123'')
   \<and> get_crate_line (default_globals\<lparr>STANZA_FIELD_WIDTH := 5\<rparr>)
     [''name'' \<mapsto> ''foo'', ''version'' \<mapsto> ''1.0'', ''checksum'' \<mapsto> ''abc123'']
     = Inr (''    foo 1.0 abc123'')"
  using get_crate_line_layout [of "[''name'' \<mapsto> ''foo'', ''version'' \<mapsto> ''1.0'', ''checksum'' \<mapsto> ''abc123'']"
        "''foo''" "''1.0''" "''abc123''" default_globals]
    get_crate_line_layout [of "[''name'' \<mapsto> ''foo'', ''version'' \<mapsto> ''1.0'', ''checksum'' \<mapsto> ''abc123'']"
        "''foo''" "''1.0''" "''abc123''" "default_globals\<lparr>STANZA_FIELD_WIDTH := 5\<rparr>"]
  by (simp add: default_globals_def eval_nat_numeral)

lemma get_crate_line_KeyError:
  assumes "pkg ''checksum'' \<noteq> None" and "pkg ''name'' = None \<or> pkg ''version'' = None"
  shows "get_crate_line G pkg = Inl (KeyError ''name'')
       \<or> get_crate_line G pkg = Inl (KeyError ''version'')"
  using assms
  by (auto simp add: get_crate_line_def getitem_def Let_def split: option.splits)

lemma get_crate_line_Inr:
  assumes "pkg ''name'' \<noteq> None" "pkg ''version'' \<noteq> None" "pkg ''checksum'' \<noteq> None"
  shows "\<exists>l. get_crate_line G pkg = Inr l"
  using assms
  by (auto simp add: get_crate_line_def getitem_def Let_def split: option.splits prod.splits)

section \<open>Records with a missing field\<close>

lemma stanza_loop_raises:
  assumes "p \<in> set pkgs" and "p ''checksum'' \<noteq> None"
    and "p ''name'' = None \<or> p ''version'' = None"
  shows "stanza_loop G n c pkgs out = Inl (KeyError ''name'')
       \<or> stanza_loop G n c pkgs out = Inl (KeyError ''version'')"
  using assms(1)
proof (induction pkgs arbitrary: c out)
  case Nil
  then show ?case by simp
next
  case (Cons q pkgs)
  show ?case
  proof (cases "q ''checksum'' = None")
    case True
    with Cons.prems assms(2) have "p \<in> set pkgs" by auto
    with Cons.IH True show ?thesis by simp
  next
    case False
    show ?thesis
    proof (cases "get_crate_line G q")
      case (Inl e)
      have "e = KeyError ''name'' \<or> e = KeyError ''version''"
        using Inl False 
        by (auto simp add: get_crate_line_def getitem_def Let_def split: option.splits prod.splits)
      with Inl False show ?thesis by auto
    next
      case (Inr line)
      have "p \<noteq> q"
        using get_crate_line_KeyError [OF assms(2,3), of G] Inr by auto
      with Cons.prems have "p \<in> set pkgs" by auto
      with Cons.IH Inr False show ?thesis by (auto simp add: Let_def)
    qed
  qed
qed

lemma stanza_loop_v2_raises:
  assumes "b \<in> set blocks" and "parse_package_block_v2 b = Inr p"
    and "p ''checksum'' \<noteq> None"
    and "p ''name'' = None \<or> p ''version'' = None"
  shows "\<exists>e. stanza_loop_v2 G n c blocks out = Inl e"
  using assms(1)
proof (induction blocks arbitrary: c out)
  case Nil
  then show ?case by simp
next
  case (Cons a blocks)
  show ?case
  proof (cases "parse_package_block_v2 a")
    case (Inl e)
    then show ?thesis by simp
  next
    case (Inr q)
    show ?thesis
    proof (cases "q ''checksum'' = None")
      case True
      with Inr assms(2,3) have "b \<noteq> a" by auto
      with Cons.prems have "b \<in> set blocks" by auto
      with Cons.IH Inr True show ?thesis by simp
    next
      case False
      show ?thesis
      proof (cases "get_crate_line G q")
        case (Inl e)
        with Inr False show ?thesis by auto
      next
        case line: (Inr line)
        have "b \<noteq> a"
          using get_crate_line_KeyError [OF assms(3,4), of G] line Inr assms(2) by auto
        with Cons.prems have "b \<in> set blocks" by auto
        with Cons.IH Inr line False show ?thesis by (auto simp add: Let_def)
      qed
    qed
  qed
qed

text \<open>
  Claim C10.  A record that has a checksum but lacks its name or its version makes
  \<open>get_crate_line\<close> raise \<open>KeyError\<close>, and a list that holds such a record makes
  \<open>generate_crates_stanza\<close> raise instead of returning a stanza, in both programs.
\<close>

theorem missing_field_fails_loudly:
  "(p \<in> set pkgs \<and> p ''checksum'' \<noteq> None \<and> (p ''name'' = None \<or> p ''version'' = None) \<longrightarrow>
      (get_crate_line G p = Inl (KeyError ''name'')
         \<or> get_crate_line G p = Inl (KeyError ''version''))
    \<and> (generate_crates_stanza G pkgs = Inl (KeyError ''name'')
         \<or> generate_crates_stanza G pkgs = Inl (KeyError ''version'')))
 \<and> (b \<in> set blocks \<and> parse_package_block_v2 b = Inr p \<and> p ''checksum'' \<noteq> None
      \<and> (p ''name'' = None \<or> p ''version'' = None) \<longrightarrow>
      (\<exists>e. generate_crates_stanza_v2 G blocks = Inl e))"
proof (intro conjI impI)
  assume a: "p \<in> set pkgs \<and> p ''checksum'' \<noteq> None \<and> (p ''name'' = None \<or> p ''version'' = None)"
  then show "get_crate_line G p = Inl (KeyError ''name'')
         \<or> get_crate_line G p = Inl (KeyError ''version'')"
    using get_crate_line_KeyError by blast
  from a have "stanza_output G pkgs = Inl (KeyError ''name'')
       \<or> stanza_output G pkgs = Inl (KeyError ''version'')"
    unfolding stanza_output_def using stanza_loop_raises by blast
  then show "generate_crates_stanza G pkgs = Inl (KeyError ''name'')
         \<or> generate_crates_stanza G pkgs = Inl (KeyError ''version'')"
    by (auto simp add: generate_crates_stanza_def)
next
  assume a: "b \<in> set blocks \<and> parse_package_block_v2 b = Inr p \<and> p ''checksum'' \<noteq> None
      \<and> (p ''name'' = None \<or> p ''version'' = None)"
  then obtain e where "stanza_output_v2 G blocks = Inl e"
    unfolding stanza_output_v2_def using stanza_loop_v2_raises by blast
  then show "\<exists>e. generate_crates_stanza_v2 G blocks = Inl e"
    by (simp add: generate_crates_stanza_v2_def)
qed

text \<open>A record, and a block, that hold a checksum only.\<close>

theorem missing_field_fails_loudly_witness:
  "(generate_crates_stanza default_globals [[''checksum'' \<mapsto> ''c'']] = Inl (KeyError ''name'')
     \<or> generate_crates_stanza default_globals [[''checksum'' \<mapsto> ''c'']] = Inl (KeyError ''version''))
   \<and> (\<exists>e. generate_crates_stanza_v2 default_globals [Some (''checksum=c'' @ [NL])] = Inl e)"
proof -
  have p: "parse_package_block_v2 (Some (''checksum=c'' @ [NL])) = Inr [''checksum'' \<mapsto> ''c'']"
    by (simp add: parse_package_block_v2_def strip_string_def py_strip_def py_strip_chars_def
        isspace_def)
  show ?thesis
    using missing_field_fails_loudly [of "[''checksum'' \<mapsto> ''c'']" "[[''checksum'' \<mapsto> ''c'']]"
        default_globals "Some (''checksum=c'' @ [NL])" "[Some (''checksum=c'' @ [NL])]"] p
    by simp
qed

section \<open>The continuation marker\<close>

text \<open>
  Claim C1 at two records, the second without a checksum: \<open>count\<close> runs over the whole
  list, so the only line emitted is not the one with \<open>count = num_blocks - 1\<close> and keeps
  its trailing marker.
\<close>

theorem stanza_marker_on_last_emitted_line:
  "generate_crates_stanza default_globals
     [[''name'' \<mapsto> ''a'', ''version'' \<mapsto> ''1'', ''checksum'' \<mapsto> ''c''],
      [''name'' \<mapsto> ''b'', ''version'' \<mapsto> ''2'']]
   = Inr (''cargo.crates '' @ [BSL, NL]
          @ ''    a                                    1  c '' @ [BSL])"
  by (simp add: generate_crates_stanza_def stanza_output_def get_crate_line_def getitem_def
      default_globals_def py_mul_str_single eval_nat_numeral)

section \<open>Parsing a block\<close>

lemma py_split_max_first:
  "c \<in> set s \<Longrightarrow>
   py_split_max c (Suc 0) s = [takeWhile (\<lambda>x. x \<noteq> c) s, tl (dropWhile (\<lambda>x. x \<noteq> c) s)]"
  by simp

lemma first_split_parts:
  assumes "c \<in> set s"
  shows "takeWhile (\<lambda>x. x \<noteq> c) s @ c # tl (dropWhile (\<lambda>x. x \<noteq> c) s) = s"
    and "c \<notin> set (takeWhile (\<lambda>x. x \<noteq> c) s)"
proof -
  from assms have "dropWhile (\<lambda>x. x \<noteq> c) s \<noteq> []" by simp
  moreover have "hd (dropWhile (\<lambda>x. x \<noteq> c) s) = c"
    using assms hd_dropWhile [of "\<lambda>x. x \<noteq> c" s] by simp
  ultimately have "dropWhile (\<lambda>x. x \<noteq> c) s = c # tl (dropWhile (\<lambda>x. x \<noteq> c) s)"
    by (cases "dropWhile (\<lambda>x. x \<noteq> c) s") simp_all
  then show "takeWhile (\<lambda>x. x \<noteq> c) s @ c # tl (dropWhile (\<lambda>x. x \<noteq> c) s) = s"
    by (metis takeWhile_dropWhile_id)
  show "c \<notin> set (takeWhile (\<lambda>x. x \<noteq> c) s)"
    by (auto dest: set_takeWhileD)
qed

lemma parse_lines_with_eq:
  "CHR ''='' \<in> set line \<Longrightarrow>
   parse_lines (line # lines) parsed =
     parse_lines lines
       (parsed(strip_string (takeWhile (\<lambda>x. x \<noteq> CHR ''='') line)
               \<mapsto> strip_string (tl (dropWhile (\<lambda>x. x \<noteq> CHR ''='') line))))"
  by (simp add: py_split_max_first)

lemma parse_lines_without_eq:
  "CHR ''='' \<notin> set line \<Longrightarrow> parse_lines (line # lines) parsed = parse_lines lines parsed"
  by simp

lemma parse_lines_total: "\<exists>p. parse_lines lines parsed = Inr p"
proof (induction lines arbitrary: parsed)
  case Nil
  show ?case by simp
next
  case (Cons line lines)
  show ?case
  proof (cases "CHR ''='' \<in> set line")
    case True
    show ?thesis
      unfolding parse_lines_with_eq [OF True] by (rule Cons.IH)
  next
    case False
    show ?thesis
      unfolding parse_lines_without_eq [OF False] by (rule Cons.IH)
  qed
qed

lemma parse_package_block_total: "\<exists>p. parse_package_block t = Inr p"
  unfolding parse_package_block_def by (rule parse_lines_total)

lemma parse_lines_v2_bound:
  assumes "parsed (strip_string k) = Some (strip_string v)"
  shows "parse_lines_v2 lines (Some (k, v)) parsed = parse_lines lines parsed"
  using assms
proof (induction lines arbitrary: k v parsed)
  case Nil
  show ?case by simp
next
  case (Cons line lines)
  show ?case
  proof (cases "CHR ''='' \<in> set line")
    case True
    let ?k = "takeWhile (\<lambda>x. x \<noteq> CHR ''='') line"
    let ?v = "tl (dropWhile (\<lambda>x. x \<noteq> CHR ''='') line)"
    have "parse_lines_v2 (line # lines) (Some (k, v)) parsed
        = parse_lines_v2 lines (Some (?k, ?v)) (parsed(strip_string ?k \<mapsto> strip_string ?v))"
      using True by (simp add: py_split_max_first)
    also have "\<dots> = parse_lines lines (parsed(strip_string ?k \<mapsto> strip_string ?v))"
      by (rule Cons.IH) simp
    finally show ?thesis
      unfolding parse_lines_with_eq [OF True] .
  next
    case False
    have "parsed(strip_string k \<mapsto> strip_string v) = parsed"
      using Cons.prems by (simp add: map_upd_triv)
    then have "parse_lines_v2 (line # lines) (Some (k, v)) parsed
        = parse_lines_v2 lines (Some (k, v)) parsed"
      using False by simp
    also have "\<dots> = parse_lines lines parsed"
      using Cons.prems by (rule Cons.IH)
    finally show ?thesis
      unfolding parse_lines_without_eq [OF False] .
  qed
qed

lemma parse_lines_v2_first:
  assumes "CHR ''='' \<in> set line"
  shows "parse_lines_v2 (line # lines) None parsed = parse_lines (line # lines) parsed"
proof -
  let ?k = "takeWhile (\<lambda>x. x \<noteq> CHR ''='') line"
  let ?v = "tl (dropWhile (\<lambda>x. x \<noteq> CHR ''='') line)"
  have "parse_lines_v2 (line # lines) None parsed
      = parse_lines_v2 lines (Some (?k, ?v)) (parsed(strip_string ?k \<mapsto> strip_string ?v))"
    using assms by (simp add: py_split_max_first)
  also have "\<dots> = parse_lines lines (parsed(strip_string ?k \<mapsto> strip_string ?v))"
    by (rule parse_lines_v2_bound) simp
  finally show ?thesis
    unfolding parse_lines_with_eq [OF assms] .
qed

lemma py_split_line:
  "NL \<notin> set l \<Longrightarrow> py_split NL (l @ NL # rs) = l # py_split NL rs"
  by (induction l) auto

lemma py_split_unlines:
  "list_all wf_line ls \<Longrightarrow> py_split NL (unlines ls) = ls @ [[]]"
  by (induction ls) (simp_all add: unlines_Nil unlines_Cons py_split_line wf_line_def)

lemma parse_package_block_v2_wf:
  assumes "wf_block ls"
  shows "parse_package_block_v2 (Some (unlines ls)) = parse_package_block (unlines ls)"
proof -
  from assms obtain l ls' where ls: "ls = l # ls'" and eq: "CHR ''='' \<in> set l"
    by (cases ls) (auto simp add: wf_block_def)
  from assms have "py_split NL (unlines ls) = ls @ [[]]"
    by (simp add: py_split_unlines wf_block_def)
  then show ?thesis
    using parse_lines_v2_first [OF eq, of "ls' @ [[]]" Map.empty]
    by (simp add: parse_package_block_v2_def parse_package_block_def ls)
qed

text \<open>
  Claim C6 at a block whose first line has no \<open>=\<close>: \<open>cargoV2forports.py\<close> reads the
  unbound \<open>v\<close>, where \<open>cargo2ports.py\<close> ignores the line.
\<close>

theorem parse_package_block_v2_unbound:
  "parse_package_block_v2 (Some (''foo'' @ [NL])) = Inl (UnboundLocalError ''v'')
   \<and> parse_package_block (''foo'' @ [NL]) = Inr Map.empty"
  by (simp add: parse_package_block_v2_def parse_package_block_def)

section \<open>The matcher\<close>

lemma ms_suffix: "s' \<in> set (ms r s) \<Longrightarrow> suffix (rest_of s') (rest_of s)"
proof (induction r s arbitrary: s' rule: ms.induct)
  case (1 c b rs g)
  then show ?case by (auto split: list.splits if_splits simp add: suffix_Cons)
next
  case (2 w b rs g)
  then show ?case by (auto split: if_splits simp add: suffix_drop)
next
  case (3 b rs g)
  then show ?case by (auto split: list.splits if_splits simp add: suffix_Cons)
next
  case (4 b rs g)
  then show ?case by (auto split: list.splits if_splits simp add: suffix_Cons)
next
  case (5 b rs g)
  then show ?case by (auto split: if_splits)
next
  case (6 b rs g)
  then show ?case by (auto split: if_splits)
next
  case (7 r1 r2 s)
  from "7.prems" obtain x where x: "x \<in> set (ms r1 s)" and s': "s' \<in> set (ms r2 x)"
    by auto
  from "7.IH"(1) [OF x] "7.IH"(2) [OF x s'] show ?case
    using suffix_order.trans by blast
next
  case (8 r1 r2 s)
  from "8.prems" have "s' \<in> set (ms r1 s) \<or> s' \<in> set (ms r2 s)" by simp
  with "8.IH" show ?case by blast
next
  case (9 r s)
  from "9.prems" have "s' = s \<or> (\<exists>x\<in>set (ms r s). length (rest_of x) < length (rest_of s)
      \<and> s' \<in> set (ms (Star r) x))"
    by (subst (asm) ms.simps(9)) (auto split: if_splits)
  then show ?case
  proof
    assume "s' = s"
    then show ?thesis by simp
  next
    assume "\<exists>x\<in>set (ms r s). length (rest_of x) < length (rest_of s) \<and> s' \<in> set (ms (Star r) x)"
    then obtain x where x: "x \<in> set (ms r s)" and l: "length (rest_of x) < length (rest_of s)"
      and s': "s' \<in> set (ms (Star r) x)" by blast
    from "9.IH"(1) [OF x] "9.IH"(2) [OF x l s'] show ?thesis
      using suffix_order.trans by blast
  qed
next
  case (10 n r b rs g)
  then show ?case by fastforce
qed

lemma ms_Star_Space_Nil [simp]: "ms (Star Space) (b, [], g) = [(b, [], g)]"
  by (subst ms.simps(9)) simp

lemma ms_Star_Space_Cons [simp]:
  "ms (Star Space) (b, x # xs, g) =
     (if isspace x then ms (Star Space) (x = NL, xs, g) @ [(b, x # xs, g)]
      else [(b, x # xs, g)])"
  by (subst ms.simps(9)) simp

lemma ms_Star_Dot_Nil [simp]: "ms (Star Dot) (b, [], g) = [(b, [], g)]"
  by (subst ms.simps(9)) simp

lemma ms_Star_Dot_Cons [simp]:
  "ms (Star Dot) (b, x # xs, g) =
     (if x \<noteq> NL then ms (Star Dot) (False, xs, g) @ [(b, x # xs, g)]
      else [(b, x # xs, g)])"
  by (subst ms.simps(9)) simp

text \<open>A line: \<open>.+\n\<close>.\<close>

lemma ms_Star_Dot_NL:
  "NL \<notin> set l \<Longrightarrow> ms (Seq (Star Dot) (Chr NL)) (b, l @ NL # rs, g) = [(True, rs, g)]"
  by (induction l arbitrary: b) auto

lemma ms_line:
  assumes "l \<noteq> []" and "NL \<notin> set l"
  shows "ms (Seq (Plus Dot) (Chr NL)) (b, l @ NL # rs, g) = [(True, rs, g)]"
proof -
  from assms obtain x l' where l: "l = x # l'" and x: "x \<noteq> NL" and l': "NL \<notin> set l'"
    by (cases l) auto
  have "ms (Seq (Plus Dot) (Chr NL)) (b, l @ NL # rs, g)
      = ms (Seq (Star Dot) (Chr NL)) (False, l' @ NL # rs, g)"
    using l x by simp
  also have "\<dots> = [(True, rs, g)]"
    using l' by (rule ms_Star_Dot_NL)
  finally show ?thesis .
qed

lemma ms_line_none:
  "rs = [] \<or> hd rs = NL \<Longrightarrow> ms (Seq (Plus Dot) (Chr NL)) (b, rs, g) = []"
  by (cases rs) auto

lemma re_match_None: "re_match r s = None \<longleftrightarrow> ms r s = []"
  by (simp add: re_match_def split: list.splits)

lemma re_match_Some: "re_match r s = Some x \<longleftrightarrow> (\<exists>xs. ms r s = x # xs)"
  by (simp add: re_match_def split: list.splits)

lemma re_match_Seq:
  assumes "re_match r1 s = Some x" and "re_match r2 x = Some y"
  shows "re_match (Seq r1 r2) s = Some y"
  using assms by (auto simp add: re_match_Some)

lemma re_match_Seq_single:
  assumes "ms r1 s = [x]"
  shows "re_match (Seq r1 r2) s = re_match r2 x"
  using assms by (simp add: re_match_def)

lemma re_match_Alt1: "re_match r1 s = Some x \<Longrightarrow> re_match (Alt r1 r2) s = Some x"
  by (auto simp add: re_match_Some)

lemma re_match_Alt2: "ms r1 s = [] \<Longrightarrow> re_match (Alt r1 r2) s = re_match r2 s"
  by (simp add: re_match_def)

lemma re_match_Grp:
  assumes "re_match r (b, rs, g) = Some (b', rs', g')"
  shows "re_match (Grp n r) (b, rs, g)
       = Some (b', rs', g'(n \<mapsto> take (length rs - length rs') rs))"
  using assms by (auto simp add: re_match_Some)

lemma re_match_Grp_None: "ms r (b, rs, g) = [] \<Longrightarrow> ms (Grp n r) (b, rs, g) = []"
  by simp

lemma ms_Star_none: "ms r s = [] \<Longrightarrow> ms (Star r) s = [s]"
  by (subst ms.simps(9)) simp

lemma ms_Star_single:
  assumes "ms r s = [x]" and "length (rest_of x) < length (rest_of s)"
  shows "ms (Star r) s = ms (Star r) x @ [s]"
  using assms by (subst ms.simps(9)) simp

lemma ms_Grp_line:
  assumes "l \<noteq> []" and "NL \<notin> set l"
  shows "ms (Grp n (Seq (Plus Dot) (Chr NL))) (b, l @ NL # rs, g)
       = [(True, rs, g(n \<mapsto> l @ [NL]))]"
proof -
  have "ms (Grp n (Seq (Plus Dot) (Chr NL))) (b, l @ NL # rs, g)
      = map (\<lambda>(b', rs', g'). (b', rs', g'(n \<mapsto> take (length (l @ NL # rs) - length rs') (l @ NL # rs))))
          (ms (Seq (Plus Dot) (Chr NL)) (b, l @ NL # rs, g))"
    by (rule ms.simps(10))
  also have "\<dots> = [(True, rs, g(n \<mapsto> l @ [NL]))]"
    by (simp only: ms_line [OF assms]) simp
  finally show ?thesis .
qed

lemma ms_Grp_line_none:
  "rs = [] \<or> hd rs = NL \<Longrightarrow> ms (Grp n (Seq (Plus Dot) (Chr NL))) (b, rs, g) = []"
  using ms_line_none [of rs b g] by (simp only: ms.simps(10)) simp

text \<open>The lines of a block, taken greedily: \<open>(.+\n)*\<close> and \<open>(.+\n)+\<close>.\<close>

lemma re_match_Star_lines:
  assumes "list_all wf_line ls" and "tail = [] \<or> hd tail = NL"
  shows "re_match (Star (Grp n (Seq (Plus Dot) (Chr NL)))) (b, unlines ls @ tail, g)
       = Some (if ls = [] then b else True, tail,
               if ls = [] then g else g(n \<mapsto> last ls @ [NL]))"
  using assms(1)
proof (induction ls arbitrary: b g)
  case Nil
  have "ms (Star (Grp n (Seq (Plus Dot) (Chr NL)))) (b, tail, g) = [(b, tail, g)]"
    using assms(2) by (intro ms_Star_none ms_Grp_line_none)
  then show ?case by (simp add: unlines_Nil re_match_def)
next
  case (Cons l ls)
  then have ls: "list_all wf_line ls" and "wf_line l"
    by simp_all
  then have l: "l \<noteq> []" "NL \<notin> set l"
    by (simp_all add: wf_line_def)
  let ?R = "Grp n (Seq (Plus Dot) (Chr NL))"
  let ?s1 = "(True, unlines ls @ tail, g(n \<mapsto> l @ [NL]))"
  have one: "ms ?R (b, unlines (l # ls) @ tail, g) = [?s1]"
    using ms_Grp_line [OF l, of n b "unlines ls @ tail" g] by (simp add: unlines_Cons)
  have "ms (Star ?R) (b, unlines (l # ls) @ tail, g)
      = ms (Star ?R) ?s1 @ [(b, unlines (l # ls) @ tail, g)]"
    by (rule ms_Star_single [OF one]) (simp add: unlines_Cons)
  moreover have "re_match (Star ?R) ?s1 = Some (True, tail, g(n \<mapsto> last (l # ls) @ [NL]))"
  proof -
    have "re_match (Star ?R) ?s1
        = Some (if ls = [] then True else True, tail,
                if ls = [] then g(n \<mapsto> l @ [NL]) else (g(n \<mapsto> l @ [NL]))(n \<mapsto> last ls @ [NL]))"
      by (rule Cons.IH [OF ls])
    also have "\<dots> = Some (True, tail, g(n \<mapsto> last (l # ls) @ [NL]))"
      by simp
    finally show ?thesis .
  qed
  then obtain xs where "ms (Star ?R) ?s1 = (True, tail, g(n \<mapsto> last (l # ls) @ [NL])) # xs"
    unfolding re_match_Some by blast
  ultimately have "ms (Star ?R) (b, unlines (l # ls) @ tail, g)
      = (True, tail, g(n \<mapsto> last (l # ls) @ [NL])) # (xs @ [(b, unlines (l # ls) @ tail, g)])"
    by simp
  then have "re_match (Star ?R) (b, unlines (l # ls) @ tail, g)
      = Some (True, tail, g(n \<mapsto> last (l # ls) @ [NL]))"
    unfolding re_match_Some by blast
  then show ?case by (simp only: list.distinct if_False)
qed

lemma re_match_Plus_lines:
  assumes "list_all wf_line ls" and "ls \<noteq> []" and "tail = [] \<or> hd tail = NL"
  shows "re_match (Plus (Grp n (Seq (Plus Dot) (Chr NL)))) (b, unlines ls @ tail, g)
       = Some (True, tail, g(n \<mapsto> last ls @ [NL]))"
proof -
  from assms(1,2) obtain l ls' where ls: "ls = l # ls'" and "wf_line l"
    and ls': "list_all wf_line ls'"
    by (cases ls) auto
  then have l: "l \<noteq> []" "NL \<notin> set l"
    by (simp_all add: wf_line_def)
  let ?R = "Grp n (Seq (Plus Dot) (Chr NL))"
  have one: "ms ?R (b, unlines ls @ tail, g) = [(True, unlines ls' @ tail, g(n \<mapsto> l @ [NL]))]"
    using ms_Grp_line [OF l, of n b "unlines ls' @ tail" g] by (simp add: ls unlines_Cons)
  have "re_match (Plus ?R) (b, unlines ls @ tail, g)
      = re_match (Star ?R) (True, unlines ls' @ tail, g(n \<mapsto> l @ [NL]))"
    by (rule re_match_Seq_single [OF one])
  also have "\<dots> = Some (if ls' = [] then True else True, tail,
                if ls' = [] then g(n \<mapsto> l @ [NL]) else (g(n \<mapsto> l @ [NL]))(n \<mapsto> last ls' @ [NL]))"
    by (rule re_match_Star_lines [OF ls' assms(3)])
  also have "\<dots> = Some (True, tail, g(n \<mapsto> last ls @ [NL]))"
    by (simp add: ls)
  finally show ?thesis .
qed

section \<open>Matching the tables of a well-formed lockfile\<close>

text \<open>The end of a block: \<open>(^\s*\n|$)\<close>.\<close>

lemma re_match_block_end_eof:
  "re_match (Grp k (Alt (Seq Bol (Seq (Star Space) (Chr NL))) Eol)) (True, [], g)
     = Some (True, [], g(k \<mapsto> []))"
  by (simp add: re_match_def)

lemma re_match_block_end_blank:
  assumes "\<not> isspace c"
  shows "re_match (Grp k (Alt (Seq Bol (Seq (Star Space) (Chr NL))) Eol)) (True, NL # c # rest, g)
     = Some (True, c # rest, g(k \<mapsto> [NL]))"
proof -
  from assms have "c \<noteq> NL" by (auto simp add: isspace_def)
  with assms show ?thesis
    by (simp add: re_match_def isspace_def)
qed

lemma re_match_spaces_then_line:
  assumes "ls \<noteq> []" and "hd ls \<noteq> []" and "\<not> isspace (hd (hd ls))"
  shows "re_match (Star Space) (b, NL # unlines ls @ tail, g) = Some (True, unlines ls @ tail, g)"
proof -
  from assms obtain c l ls' where "ls = (c # l) # ls'" and "\<not> isspace c"
    by (cases ls; cases "hd ls") auto
  then show ?thesis
    by (simp add: re_match_def unlines_Cons isspace_def)
qed

lemma wf_block_parts:
  assumes "wf_block ls"
  shows "ls \<noteq> []" and "list_all wf_line ls" and "hd ls \<noteq> []" and "\<not> isspace (hd (hd ls))"
  using assms by (cases ls; simp add: wf_block_def wf_line_def)+

lemma re_match_block_re:
  assumes "wf_block ls"
    and "tail = [] \<and> tail' = [] \<and> sep = [] \<or> (\<exists>c rest. tail = NL # c # rest \<and> tail' = c # rest \<and> sep = [NL] \<and> \<not> isspace c)"
  shows "re_match block_re (b, block_text ls @ tail, g)
       = Some (True, tail', g(2 \<mapsto> last ls @ [NL], 1 \<mapsto> unlines ls, 3 \<mapsto> sep))"
proof -
  note wf = wf_block_parts [OF assms(1)]
  let ?lines = "Grp 1 (Plus (Grp 2 (Seq (Plus Dot) (Chr NL))))"
  let ?end = "Grp 3 (Alt (Seq Bol (Seq (Star Space) (Chr NL))) Eol)"
  from assms(2) have tail: "tail = [] \<or> hd tail = NL" by auto
  have lines: "re_match ?lines (True, unlines ls @ tail, g)
      = Some (True, tail, g(2 \<mapsto> last ls @ [NL], 1 \<mapsto> unlines ls))"
    using re_match_Grp [OF re_match_Plus_lines [OF wf(2) wf(1) tail, of 2 True g], of 1]
    by simp
  have "end": "re_match ?end (True, tail, g(2 \<mapsto> last ls @ [NL], 1 \<mapsto> unlines ls))
      = Some (True, tail', g(2 \<mapsto> last ls @ [NL], 1 \<mapsto> unlines ls, 3 \<mapsto> sep))"
    using assms(2) re_match_block_end_eof re_match_block_end_blank by auto
  have "re_match (Seq (Star Space) (Seq ?lines ?end)) (False, NL # unlines ls @ tail, g)
      = Some (True, tail', g(2 \<mapsto> last ls @ [NL], 1 \<mapsto> unlines ls, 3 \<mapsto> sep))"
    by (rule re_match_Seq [OF re_match_spaces_then_line [OF wf(1,3,4)]
          re_match_Seq [OF lines "end"]])
  moreover have "ms (Str ''[[package]]'') (b, block_text ls @ tail, g)
      = [(False, NL # unlines ls @ tail, g)]"
    by (simp add: block_text_def)
  ultimately show ?thesis
    unfolding block_re_def by (simp only: re_match_Seq_single)
qed

lemma block_re_needs_header:
  "\<not> prefix ''[[package]]'' rs \<Longrightarrow> ms block_re (b, rs, g) = []"
  by (simp add: block_re_def)

lemma finditer_no_match:
  assumes "\<And>b' rs'. suffix rs' rs \<Longrightarrow> ms r (b', rs', Map.empty) = []"
  shows "finditer_from r b rs = []"
  using assms
proof (induction rs arbitrary: b)
  case Nil
  then show ?case
    by (subst finditer_from.simps) (simp add: re_match_def)
next
  case (Cons c cs)
  have "ms r (b, c # cs, Map.empty) = []"
    by (rule Cons.prems) simp
  moreover have "finditer_from r (c = NL) cs = []"
    by (rule Cons.IH) (simp add: Cons.prems suffix_Cons)
  ultimately show ?case
    by (subst finditer_from.simps) (simp add: re_match_def)
qed

lemma finditer_skip:
  assumes "\<And>b' rs'. suffix rs' pre \<Longrightarrow> rs' \<noteq> [] \<Longrightarrow> ms r (b', rs' @ rs, Map.empty) = []"
  shows "finditer_from r b (pre @ rs) = finditer_from r (if pre = [] then b else last pre = NL) rs"
  using assms
proof (induction pre arbitrary: b)
  case Nil
  then show ?case by simp
next
  case (Cons c cs)
  have "ms r (b, (c # cs) @ rs, Map.empty) = []"
    by (rule Cons.prems) simp_all
  then have "finditer_from r b ((c # cs) @ rs) = finditer_from r (c = NL) (cs @ rs)"
    by (subst finditer_from.simps) (simp add: re_match_def)
  also have "\<dots> = finditer_from r (if cs = [] then c = NL else last cs = NL) rs"
    by (rule Cons.IH) (simp add: Cons.prems suffix_Cons)
  finally show ?case by simp
qed

lemma no_bracket_no_header:
  assumes "CHR ''['' \<notin> set pre" and "suffix rs' pre" and "rs' \<noteq> []"
  shows "\<not> prefix ''[[package]]'' (rs' @ rs)"
proof -
  from assms(2) have "set rs' \<subseteq> set pre" by (simp add: set_mono_suffix)
  with assms(1,3) obtain c cs where "rs' = c # cs" and "c \<noteq> CHR ''[''"
    by (cases rs') auto
  then show ?thesis by simp
qed

lemma block_re_v2_needs_header:
  "\<not> prefix ''[[package]]'' rs \<Longrightarrow> ms block_re_v2 (b, rs, g) = []"
  by (simp add: block_re_v2_def)

lemma re_match_block_re_v2:
  assumes "wf_block ls"
    and "tail = [] \<and> tail' = [] \<and> sep = [] \<or> (\<exists>c rest. tail = NL # c # rest \<and> tail' = c # rest \<and> sep = [NL] \<and> \<not> isspace c)"
  shows "re_match block_re_v2 (b, block_text ls @ tail, g)
       = Some (True, tail', g(3 \<mapsto> last ls @ [NL], 2 \<mapsto> unlines ls, 1 \<mapsto> block_text ls, 4 \<mapsto> sep))"
proof -
  note wf = wf_block_parts [OF assms(1)]
  let ?lines = "Grp 2 (Plus (Grp 3 (Seq (Plus Dot) (Chr NL))))"
  let ?inner = "Seq (Str ''[[package]]'') (Seq (Star Space) ?lines)"
  let ?end = "Grp 4 (Alt (Seq Bol (Seq (Star Space) (Chr NL))) Eol)"
  let ?g1 = "g(3 \<mapsto> last ls @ [NL], 2 \<mapsto> unlines ls)"
  from assms(2) have tail: "tail = [] \<or> hd tail = NL" by auto
  have lines: "re_match ?lines (True, unlines ls @ tail, g) = Some (True, tail, ?g1)"
    using re_match_Grp [OF re_match_Plus_lines [OF wf(2) wf(1) tail, of 3 True g], of 2]
    by simp
  have "re_match (Seq (Star Space) ?lines) (False, NL # unlines ls @ tail, g)
      = Some (True, tail, ?g1)"
    by (rule re_match_Seq [OF re_match_spaces_then_line [OF wf(1,3,4)] lines])
  moreover have "ms (Str ''[[package]]'') (b, block_text ls @ tail, g)
      = [(False, NL # unlines ls @ tail, g)]"
    by (simp add: block_text_def)
  ultimately have inner: "re_match ?inner (b, block_text ls @ tail, g) = Some (True, tail, ?g1)"
    by (simp only: re_match_Seq_single)
  have grp: "re_match (Grp 1 ?inner) (b, block_text ls @ tail, g)
      = Some (True, tail, ?g1(1 \<mapsto> block_text ls))"
    using re_match_Grp [OF inner, of 1] by simp
  have "end": "re_match ?end (True, tail, ?g1(1 \<mapsto> block_text ls))
      = Some (True, tail', ?g1(1 \<mapsto> block_text ls, 4 \<mapsto> sep))"
    using assms(2) re_match_block_end_eof re_match_block_end_blank by auto
  show ?thesis
    unfolding block_re_v2_def by (rule re_match_Seq [OF grp "end"])
qed

lemma finditer_preamble:
  assumes "CHR ''['' \<notin> set pre"
    and "\<And>b rs g. \<not> prefix ''[[package]]'' rs \<Longrightarrow> ms r (b, rs, g) = []"
  shows "finditer_from r b (pre @ rs)
       = finditer_from r (if pre = [] then b else last pre = NL) rs"
  by (rule finditer_skip) (simp add: assms(2) no_bracket_no_header [OF assms(1)])

lemma finditer_blocks:
  assumes header: "\<And>b rs g. \<not> prefix ''[[package]]'' rs \<Longrightarrow> ms r (b, rs, g) = []"
    and block: "\<And>b ls tail tail'. wf_block ls \<Longrightarrow>
        tail = [] \<and> tail' = [] \<or> (\<exists>c rest. tail = NL # c # rest \<and> tail' = c # rest \<and> \<not> isspace c) \<Longrightarrow>
        \<exists>g'. re_match r (b, block_text ls @ tail, Map.empty) = Some (True, tail', g')
            \<and> g' k = Some (unlines ls)"
    and wf: "list_all wf_block bs"
  shows "map (\<lambda>m. m k) (finditer_from r b (py_join [NL] (map block_text bs)))
       = map (\<lambda>ls. Some (unlines ls)) bs"
  using wf
proof (induction bs arbitrary: b rule: induct_list012)
  case 1
  show ?case
    by (subst finditer_from.simps) (simp add: re_match_def header)
next
  case (2 ls)
  then have wf: "wf_block ls" by simp
  obtain g' where m: "re_match r (b, block_text ls @ [], Map.empty) = Some (True, [], g')"
    and g': "g' k = Some (unlines ls)"
    using block [OF wf, of "[]" "[]" b] by auto
  have e: "finditer_from r True [] = []"
    by (subst finditer_from.simps) (simp add: re_match_def header)
  show ?case
    using m e g' by (subst finditer_from.simps) (simp add: block_text_def)
next
  case (3 ls ls' bs)
  then have wf: "wf_block ls" and wfs: "list_all wf_block (ls' # bs)" by simp_all
  obtain rest where rest: "py_join [NL] (map block_text (ls' # bs)) = CHR ''['' # rest"
    by (cases bs) (simp_all add: block_text_def)
  have joined: "py_join [NL] (map block_text (ls # ls' # bs))
      = block_text ls @ NL # CHR ''['' # rest"
    using rest by simp
  obtain g' where m: "re_match r (b, block_text ls @ NL # CHR ''['' # rest, Map.empty)
      = Some (True, CHR ''['' # rest, g')" and g': "g' k = Some (unlines ls)"
    using block [OF wf, of "NL # CHR ''['' # rest" "CHR ''['' # rest" b]
    by (auto simp add: isspace_def)
  have "finditer_from r b (block_text ls @ NL # CHR ''['' # rest)
      = g' # finditer_from r True (CHR ''['' # rest)"
    using m by (subst finditer_from.simps) simp
  then show ?case
    using "3.IH"(2) [OF wfs, of True] g' by (simp only: joined rest) simp
qed

lemma finditer_lock_text:
  assumes "CHR ''['' \<notin> set pre" and "list_all wf_block bs"
  shows "map (\<lambda>m. m 1) (re_finditer block_re (lock_text pre bs))
       = map (\<lambda>ls. Some (unlines ls)) bs"
proof -
  have "finditer_from block_re True (pre @ py_join [NL] (map block_text bs))
      = finditer_from block_re (if pre = [] then True else last pre = NL)
          (py_join [NL] (map block_text bs))"
    using assms(1) block_re_needs_header by (rule finditer_preamble)
  moreover have "map (\<lambda>m. m 1) (finditer_from block_re (if pre = [] then True else last pre = NL)
          (py_join [NL] (map block_text bs))) = map (\<lambda>ls. Some (unlines ls)) bs"
  proof (rule finditer_blocks [OF block_re_needs_header _ assms(2)])
    fix b ls tail tail'
    assume "wf_block ls"
      and "tail = [] \<and> tail' = [] \<or> (\<exists>c rest. tail = NL # c # rest \<and> tail' = c # rest \<and> \<not> isspace c)"
    then show "\<exists>g'. re_match block_re (b, block_text ls @ tail, Map.empty) = Some (True, tail', g')
            \<and> g' 1 = Some (unlines ls)"
      using re_match_block_re [of ls tail tail' "[]" b Map.empty]
        re_match_block_re [of ls tail tail' "[NL]" b Map.empty]
      by auto
  qed
  ultimately show ?thesis
    by (simp only: re_finditer_def lock_text_def)
qed

lemma finditer_lock_text_v2:
  assumes "CHR ''['' \<notin> set pre" and "list_all wf_block bs"
  shows "map (\<lambda>m. m 2) (re_finditer block_re_v2 (lock_text pre bs))
       = map (\<lambda>ls. Some (unlines ls)) bs"
proof -
  have "finditer_from block_re_v2 True (pre @ py_join [NL] (map block_text bs))
      = finditer_from block_re_v2 (if pre = [] then True else last pre = NL)
          (py_join [NL] (map block_text bs))"
    using assms(1) block_re_v2_needs_header by (rule finditer_preamble)
  moreover have "map (\<lambda>m. m 2) (finditer_from block_re_v2 (if pre = [] then True else last pre = NL)
          (py_join [NL] (map block_text bs))) = map (\<lambda>ls. Some (unlines ls)) bs"
  proof (rule finditer_blocks [OF block_re_v2_needs_header _ assms(2)])
    fix b ls tail tail'
    assume "wf_block ls"
      and "tail = [] \<and> tail' = [] \<or> (\<exists>c rest. tail = NL # c # rest \<and> tail' = c # rest \<and> \<not> isspace c)"
    then show "\<exists>g'. re_match block_re_v2 (b, block_text ls @ tail, Map.empty) = Some (True, tail', g')
            \<and> g' 2 = Some (unlines ls)"
      using re_match_block_re_v2 [of ls tail tail' "[]" b Map.empty]
        re_match_block_re_v2 [of ls tail tail' "[NL]" b Map.empty]
      by auto
  qed
  ultimately show ?thesis
    by (simp only: re_finditer_def lock_text_def)
qed

section \<open>From a well-formed lockfile to the stanza\<close>

lemma get_packages_loop_blocks:
  assumes "map (\<lambda>m. m 1) matches = map Some texts"
  shows "\<exists>recs. get_packages_loop matches acc = Inr (acc @ recs)
            \<and> list_all2 (\<lambda>t p. parse_package_block t = Inr p) texts recs"
  using assms
proof (induction matches arbitrary: texts acc)
  case Nil
  then show ?case by simp
next
  case (Cons m matches)
  then obtain t ts where texts: "texts = t # ts" and m: "m 1 = Some t"
    and rest: "map (\<lambda>m. m 1) matches = map Some ts"
    by (cases texts) auto
  obtain p where p: "parse_package_block t = Inr p"
    using parse_package_block_total by blast
  from Cons.IH [OF rest, of "acc @ [p]"] obtain recs
    where "get_packages_loop matches (acc @ [p]) = Inr ((acc @ [p]) @ recs)"
      and "list_all2 (\<lambda>t p. parse_package_block t = Inr p) ts recs"
    by blast
  then have "get_packages_loop (m # matches) acc = Inr (acc @ (p # recs))
      \<and> list_all2 (\<lambda>t p. parse_package_block t = Inr p) texts (p # recs)"
    using m p texts by simp
  then show ?case by blast
qed

lemma stanza_loop_lines:
  assumes "\<forall>p\<in>set pkgs. p ''checksum'' \<noteq> None \<longrightarrow> p ''name'' \<noteq> None \<and> p ''version'' \<noteq> None"
  shows "stanza_loop G n c pkgs out =
     Inr (out @ map (\<lambda>(i, p). projr (get_crate_line G p)
                                @ (if int i = int n - 1 then [] else [SP, BSL]))
                    (filter (\<lambda>(i, p). p ''checksum'' \<noteq> None) (enumerate c pkgs)))"
  using assms
proof (induction pkgs arbitrary: c out)
  case Nil
  show ?case by simp
next
  case (Cons q pkgs)
  then have rest: "\<forall>p\<in>set pkgs. p ''checksum'' \<noteq> None \<longrightarrow> p ''name'' \<noteq> None \<and> p ''version'' \<noteq> None"
    by simp
  show ?case
  proof (cases "q ''checksum'' = None")
    case True
    then show ?thesis using Cons.IH [OF rest, of "Suc c" out] by simp
  next
    case False
    with Cons.prems obtain l where l: "get_crate_line G q = Inr l"
      using get_crate_line_Inr [of q G] by auto
    show ?thesis
      using False l
        Cons.IH [OF rest, of "Suc c" "out @ [l @ (if int c = int n - 1 then [] else [SP, BSL])]"]
      by (auto simp add: Let_def)
  qed
qed

lemma stanza_loop_v2_parsed:
  assumes "list_all2 (\<lambda>b p. parse_package_block_v2 b = Inr p) blocks recs"
  shows "stanza_loop_v2 G n c blocks out = stanza_loop G n c recs out"
  using assms
proof (induction blocks recs arbitrary: c out rule: list_all2_induct)
  case Nil
  show ?case by simp
next
  case (Cons b p blocks recs)
  then show ?case by (simp add: Let_def split: sum.splits)
qed

text \<open>
  Claim C3.  For a well-formed current-format lockfile whose tables all hold a name and a
  version, the records are the parsed tables in document order, and the stanza is the
  declaration line followed by one line for each record with a checksum, in that order:
  as many lines as there are tables with a checksum.  Both programs give this stanza.
\<close>

theorem lockfile_stanza_lines:
  assumes pre: "CHR ''['' \<notin> set pre"
    and wf: "list_all wf_block bs"
    and fields: "\<forall>ls\<in>set bs. \<forall>p. parse_package_block (unlines ls) = Inr p \<longrightarrow>
                   p ''name'' \<noteq> None \<and> p ''version'' \<noteq> None"
  shows "\<exists>recs lines.
      list_all2 (\<lambda>ls p. parse_package_block (unlines ls) = Inr p) bs recs
    \<and> get_packages (lock_text pre bs) = Inr recs
    \<and> get_package_blocks (lock_text pre bs) = map (\<lambda>ls. Some (unlines ls)) bs
    \<and> lines = map (\<lambda>(i, p). projr (get_crate_line G p)
                               @ (if int i = int (length bs) - 1 then [] else [SP, BSL]))
                   (filter (\<lambda>(i, p). p ''checksum'' \<noteq> None) (enumerate 0 recs))
    \<and> length lines = length (filter (\<lambda>p. p ''checksum'' \<noteq> None) recs)
    \<and> generate_crates_stanza G recs = Inr (py_join [NL] ((''cargo.crates '' @ [BSL]) # lines))
    \<and> generate_crates_stanza_v2 G (get_package_blocks (lock_text pre bs))
        = Inr (py_join [NL] ((''cargo.crates '' @ [BSL]) # lines))"
proof -
  let ?texts = "map unlines bs"
  have groups: "map (\<lambda>m. m 1) (re_finditer block_re (lock_text pre bs)) = map Some ?texts"
    using finditer_lock_text [OF pre wf] by (simp add: comp_def)
  from get_packages_loop_blocks [OF groups, of "[]"] obtain recs
    where gp: "get_packages (lock_text pre bs) = Inr recs"
      and parsed': "list_all2 (\<lambda>t p. parse_package_block t = Inr p) ?texts recs"
    by (auto simp add: get_packages_def)
  from parsed' have parsed: "list_all2 (\<lambda>ls p. parse_package_block (unlines ls) = Inr p) bs recs"
    by (simp add: list_all2_map1)
  then have len: "length recs = length bs"
    by (simp add: list_all2_lengthD)
  have ok: "\<forall>p\<in>set recs. p ''checksum'' \<noteq> None \<longrightarrow> p ''name'' \<noteq> None \<and> p ''version'' \<noteq> None"
  proof
    fix p assume "p \<in> set recs"
    then obtain i where i: "i < length recs" "recs ! i = p"
      by (auto simp add: in_set_conv_nth)
    with parsed have "parse_package_block (unlines (bs ! i)) = Inr p"
      by (auto simp add: list_all2_conv_all_nth)
    moreover have "bs ! i \<in> set bs"
      using i len by simp
    ultimately show "p ''checksum'' \<noteq> None \<longrightarrow> p ''name'' \<noteq> None \<and> p ''version'' \<noteq> None"
      using fields by blast
  qed
  define lines where "lines = map (\<lambda>(i, p). projr (get_crate_line G p)
                               @ (if int i = int (length bs) - 1 then [] else [SP, BSL]))
                   (filter (\<lambda>(i, p). p ''checksum'' \<noteq> None) (enumerate 0 recs))"
  have out: "stanza_output G recs = Inr ((''cargo.crates '' @ [BSL]) # lines)"
    unfolding stanza_output_def lines_def
    using stanza_loop_lines [OF ok, of G "length recs" 0 "[''cargo.crates '' @ [BSL]]"]
    by (simp add: len)
  have n: "length lines = length (filter (\<lambda>p. p ''checksum'' \<noteq> None) recs)"
  proof -
    have "filter (\<lambda>p. p ''checksum'' \<noteq> None) (map snd (enumerate 0 recs))
        = map snd (filter (\<lambda>(i, p). p ''checksum'' \<noteq> None) (enumerate 0 recs))"
      unfolding filter_map by (simp only: comp_def case_prod_unfold)
    then have "length (filter (\<lambda>(i, p). p ''checksum'' \<noteq> None) (enumerate 0 recs))
        = length (filter (\<lambda>p. p ''checksum'' \<noteq> None) recs)"
      by (metis length_map map_snd_enumerate)
    then show ?thesis by (simp add: lines_def)
  qed
  have blocks: "get_package_blocks (lock_text pre bs) = map (\<lambda>ls. Some (unlines ls)) bs"
    using finditer_lock_text_v2 [OF pre wf] by (simp add: get_package_blocks_def)
  have v2: "list_all2 (\<lambda>b p. parse_package_block_v2 b = Inr p) (map (\<lambda>ls. Some (unlines ls)) bs) recs"
    using parsed wf
    by (auto simp add: list_all2_map1 list_all2_conv_all_nth list_all_length parse_package_block_v2_wf)
  have out2: "stanza_output_v2 G (get_package_blocks (lock_text pre bs))
      = Inr ((''cargo.crates '' @ [BSL]) # lines)"
    unfolding stanza_output_v2_def blocks
    using stanza_loop_v2_parsed [OF v2] out
    by (simp add: stanza_output_def len)
  show ?thesis
    using parsed gp blocks n out out2
    by (intro exI [of _ recs] exI [of _ lines])
       (simp add: generate_crates_stanza_def generate_crates_stanza_v2_def lines_def)
qed

text \<open>The same for the sample lockfile.\<close>

theorem lockfile_stanza_lines_witness:
  "\<exists>recs lines.
      list_all2 (\<lambda>ls p. parse_package_block (unlines ls) = Inr p) sample_blocks recs
    \<and> get_packages (lock_text sample_preamble sample_blocks) = Inr recs
    \<and> get_package_blocks (lock_text sample_preamble sample_blocks)
        = map (\<lambda>ls. Some (unlines ls)) sample_blocks
    \<and> lines = map (\<lambda>(i, p). projr (get_crate_line default_globals p)
                               @ (if int i = int (length sample_blocks) - 1 then []
                                  else [SP, BSL]))
                   (filter (\<lambda>(i, p). p ''checksum'' \<noteq> None) (enumerate 0 recs))
    \<and> length lines = length (filter (\<lambda>p. p ''checksum'' \<noteq> None) recs)
    \<and> generate_crates_stanza default_globals recs
        = Inr (py_join [NL] ((''cargo.crates '' @ [BSL]) # lines))
    \<and> generate_crates_stanza_v2 default_globals
          (get_package_blocks (lock_text sample_preamble sample_blocks))
        = Inr (py_join [NL] ((''cargo.crates '' @ [BSL]) # lines))"
proof (rule lockfile_stanza_lines)
  show "CHR ''['' \<notin> set sample_preamble"
    by (simp add: sample_preamble_def)
  show "list_all wf_block sample_blocks"
    by (simp add: sample_blocks_def wf_block_def wf_line_def isspace_def)
  show "\<forall>ls\<in>set sample_blocks.
       \<forall>p. parse_package_block (unlines ls) = Inr p \<longrightarrow>
           p ''name'' \<noteq> None \<and> p ''version'' \<noteq> None"
    by (auto simp add: sample_blocks_def parse_package_block_def unlines_def strip_string_def
        py_strip_def py_strip_chars_def isspace_def)
qed

end
